theory Spec2Isabelle
  imports Main
begin

section \<open>Data model of the stream package\<close>

text \<open>
  Go values are modelled as follows: a byte slice and an \<open>error\<close> value are strings, a
  \<open>time.Duration\<close> is an integer, a pointer that may be nil is an \<open>option\<close>, a pair
  of Go results \<open>(v, err)\<close> is a pair of options, and a panic is a value of the
  datatype \<open>panic\<close>.
\<close>

type_synonym bytes = string
type_synonym goerror = string
type_synonym duration = int

text \<open>The sentinel \<open>backoff.Stop\<close> of the backoff library, the duration \<open>-1\<close>.\<close>

definition backoff_Stop :: duration where
  "backoff_Stop = - 1"

text \<open>
  The interface \<open>backoff.BackOff\<close>: \<open>retry\<close> receives two values of it and only calls
  \<open>NextBackOff\<close> and \<open>Reset\<close>. An implementation is a pair of methods over its own
  state \<open>'b\<close>.
\<close>

record 'b BackOff =
  NextBackOff :: "'b \<Rightarrow> duration \<times> 'b"
  Reset :: "'b \<Rightarrow> 'b"

text \<open>\<open>StreamData\<close>; the type \<open>Tweet\<close> is declared elsewhere and is the parameter \<open>'t\<close>.\<close>

record 't StreamData =
  Tweet :: "'t option"
  MatchingRules :: "(string \<times> string) list"

record StreamFilterParams =
  Expansions :: "string list"
  MediaFields :: "string list"
  PlaceFields :: "string list"
  PollFields :: "string list"
  TweetFields :: "string list"
  UserFields :: "string list"

record Request =
  Method :: string
  URL :: string
  Header :: "(string \<times> string) list"
  RawQuery :: string

record StreamService =
  token :: string

datatype panic =
    PanicErr goerror
  | CloseOfClosedChannel
  | NegativeWaitGroup
  | NilDereference

text \<open>
  What \<open>s.client.Do(req)\<close> returns: an error, or a response with its status code and
  the lines its body will deliver.
\<close>

datatype do_result = DoErr goerror | DoResp nat "bytes list"

text \<open>A response body: the lines not read yet and the number of \<open>Close\<close> calls on it.\<close>

record Body =
  lines :: "bytes list"
  closes :: nat

text \<open>A channel is its history: the values sent on it and its closing.\<close>

datatype 'm chan_event = Sent 'm | Closed

datatype deferred = CloseMessages | GroupDone | BodyClose nat

text \<open>
  The program points of the goroutine running \<open>retry\<close> (and \<open>receive\<close>, which it
  calls), named after the statement about to run.
\<close>

datatype 't pc =
    RetryEntry
  | RetryHead
  | DoRequest
  | SetBody
  | Switch
  | CloseOther
  | RecvHead
  | ReadNext
  | Select bytes
  | Send "'t StreamData option"
  | ResetBackOffs
  | CloseResp
  | CheckWait
  | Sleep
  | Unwind "panic option"
  | Exited

text \<open>The program points of the thread that calls \<open>Stop\<close>.\<close>

datatype caller_pc = NotInStop | StopBody | StopWait

text \<open>The external collaborators of the package.\<close>

record ('t, 'b) env =
  client_Do :: "Request \<Rightarrow> nat \<Rightarrow> do_result"
  json_Unmarshal :: "bytes \<Rightarrow> goerror + 't StreamData"
  expOps :: "'b BackOff"
  aggOps :: "'b BackOff"
  newExponentialBackOff :: 'b
  newAggressiveExponentialBackOff :: 'b

record lib =
  http_NewRequest :: "string \<Rightarrow> string \<Rightarrow> Request option \<times> goerror option"
  query_Values :: "StreamFilterParams option \<Rightarrow> (string \<times> string list) list \<times> goerror option"
  values_Encode :: "(string \<times> string list) list \<Rightarrow> string"

text \<open>
  The struct \<open>Stream\<close> (\<open>Messages\<close>, \<open>done\<close>, \<open>group\<close>, \<open>body\<close>), the response
  bodies it has obtained, the locals of the goroutine running \<open>retry\<close>, the thread
  calling \<open>Stop\<close>, and the process.
\<close>

record ('t, 'b) Stream =
  req :: Request
  Messages :: "'t StreamData option chan_event list"
  done_ch :: bool
  group :: nat
  body :: "nat option"
  bodies :: "nat \<Rightarrow> Body option"
  requests :: nat
  pc :: "'t pc"
  defers :: "deferred list"
  wait :: duration
  expBackOff :: 'b
  aggExpBackOff :: 'b
  resp_status :: nat
  resp_body :: nat
  caller :: caller_pc
  stop_returns :: nat
  crashed :: "panic option"

datatype event = Go | Stop | Consume

section \<open>Request construction and Connect\<close>

definition streamV2Endpoint :: string where
  "streamV2Endpoint = ''https://api.twitter.com/2/tweets/search''"

definition header_Set :: "(string \<times> string) list \<Rightarrow> string \<Rightarrow> string \<Rightarrow> (string \<times> string) list" where
  "header_Set h k v = (k, v) # filter (\<lambda>kv. fst kv \<noteq> k) h"

text \<open>
  \<open>createStreamRequest\<close>: both errors are discarded with \<open>_\<close>. A nil request makes
  \<open>req.Header.Set\<close> panic, so the request returned is never nil; the error returned is
  always nil.
\<close>

definition createStreamRequest ::
  "lib \<Rightarrow> StreamFilterParams option \<Rightarrow> string \<Rightarrow> panic + (Request \<times> goerror option)" where
  "createStreamRequest L params tok =
     (let u = streamV2Endpoint @ ''/'' @ ''stream'' in
      case fst (http_NewRequest L ''GET'' u) of
        None \<Rightarrow> Inl NilDereference
      | Some r \<Rightarrow>
          (let r1 = r\<lparr>Header := header_Set (Header r) ''Authorization'' (''Bearer '' @ tok)\<rparr>;
               q = fst (query_Values L params)
           in Inr (r1\<lparr>RawQuery := values_Encode L q\<rparr>, None)))"

text \<open>
  \<open>newStream\<close>: the channels are made, the wait group counts one, and the goroutine
  is started at the entry of \<open>retry\<close>.
\<close>

definition newStream :: "('t, 'b) env \<Rightarrow> Request \<Rightarrow> ('t, 'b) Stream" where
  "newStream E r =
     \<lparr> req = r, Messages = [], done_ch = False, group = 1, body = None,
       bodies = (\<lambda>i. None), requests = 0, pc = RetryEntry, defers = [], wait = 0,
       expBackOff = newExponentialBackOff E,
       aggExpBackOff = newAggressiveExponentialBackOff E,
       resp_status = 0, resp_body = 0, caller = NotInStop, stop_returns = 0,
       crashed = None \<rparr>"

text \<open>
  \<open>Connect\<close>: an error of \<open>createStreamRequest\<close> is returned with a nil session;
  otherwise the session made by \<open>newStream\<close> is returned with a nil error.
\<close>

definition Connect ::
  "lib \<Rightarrow> ('t, 'b) env \<Rightarrow> StreamService \<Rightarrow> StreamFilterParams option
     \<Rightarrow> panic + (('t, 'b) Stream option \<times> goerror option)" where
  "Connect L E srv params =
     (case createStreamRequest L params (token srv) of
        Inl p \<Rightarrow> Inl p
      | Inr (r, err) \<Rightarrow>
          (case err of
             Some e \<Rightarrow> Inr (None, Some e)
           | None \<Rightarrow> Inr (Some (newStream E r), None)))"

section \<open>The goroutine: retry and receive\<close>

definition getMessage ::
  "(bytes \<Rightarrow> goerror + 't StreamData) \<Rightarrow> bytes \<Rightarrow> 't StreamData option \<times> goerror option" where
  "getMessage unm tok =
     (case unm tok of Inl err \<Rightarrow> (None, Some err) | Inr data \<Rightarrow> (Some data, None))"

text \<open>
  Modelled from the spec: \<open>stopped\<close>, the non-blocking check of the cancellation
  signal, is missing from the sources; it tells whether \<open>done\<close> has been closed.
\<close>

definition stopped :: "bool \<Rightarrow> bool" where
  "stopped d = d"

text \<open>
  Modelled from the spec: the reader made by \<open>newStreamResponseBodyReader\<close> is missing
  from the sources. \<open>readNext\<close> yields the next line, stripped of its delimiter, and
  an error at the end of the stream or once the body has been closed.
\<close>

definition readNext :: "Body \<Rightarrow> (bytes \<times> Body) option" where
  "readNext b =
     (if 0 < closes b then None
      else case lines b of [] \<Rightarrow> None | l # ls \<Rightarrow> Some (l, b\<lparr>lines := ls\<rparr>))"

definition close_body :: "nat \<Rightarrow> ('t, 'b) Stream \<Rightarrow> ('t, 'b) Stream" where
  "close_body i s =
     s\<lparr>bodies := (bodies s)(i := map_option (\<lambda>b. b\<lparr>closes := Suc (closes b)\<rparr>) (bodies s i))\<rparr>"

definition is_closed :: "'m chan_event list \<Rightarrow> bool" where
  "is_closed c = (Closed \<in> set c)"

fun sent_msgs :: "'m chan_event list \<Rightarrow> 'm list" where
  "sent_msgs [] = []"
| "sent_msgs (Sent m # c) = m # sent_msgs c"
| "sent_msgs (Closed # c) = sent_msgs c"

text \<open>
  A deferred call, run while the goroutine returns or panics. Closing a closed channel
  and a negative wait group counter panic.
\<close>

fun run_deferred :: "deferred \<Rightarrow> ('t, 'b) Stream \<Rightarrow> ('t, 'b) Stream" where
  "run_deferred (BodyClose i) s = close_body i s"
| "run_deferred GroupDone s =
     (if group s = 0 then s\<lparr>pc := Unwind (Some NegativeWaitGroup)\<rparr>
      else s\<lparr>group := group s - 1\<rparr>)"
| "run_deferred CloseMessages s =
     (if is_closed (Messages s) then s\<lparr>pc := Unwind (Some CloseOfClosedChannel)\<rparr>
      else s\<lparr>Messages := Messages s @ [Closed]\<rparr>)"

text \<open>
  One step of the goroutine. \<open>Send\<close> is the blocking send on the unbuffered channel:
  it only completes through the consumer's receive. An unrecovered panic ends the
  process once the deferred calls have run.
\<close>

definition go_step :: "('t, 'b) env \<Rightarrow> ('t, 'b) Stream \<Rightarrow> ('t, 'b) Stream" where
  "go_step E s =
     (case pc s of
        RetryEntry \<Rightarrow> s\<lparr>defers := [GroupDone, CloseMessages], wait := 0, pc := RetryHead\<rparr>
      | RetryHead \<Rightarrow>
          (if stopped (done_ch s) then s\<lparr>pc := Unwind None\<rparr> else s\<lparr>pc := DoRequest\<rparr>)
      | DoRequest \<Rightarrow>
          (case client_Do E (req s) (requests s) of
             DoErr err \<Rightarrow>
               s\<lparr>requests := Suc (requests s), pc := Unwind (Some (PanicErr err))\<rparr>
           | DoResp st ls \<Rightarrow>
               s\<lparr>requests := Suc (requests s),
                 bodies := (bodies s)(requests s \<mapsto> \<lparr>lines = ls, closes = 0\<rparr>),
                 resp_status := st, resp_body := requests s,
                 defers := BodyClose (requests s) # defers s,
                 pc := SetBody\<rparr>)
      | SetBody \<Rightarrow> s\<lparr>body := Some (resp_body s), pc := Switch\<rparr>
      | Switch \<Rightarrow>
          (if resp_status s = 200 then s\<lparr>pc := RecvHead\<rparr>
           else if resp_status s = 503 then
             (let (w, b) = NextBackOff (expOps E) (expBackOff s)
              in s\<lparr>wait := w, expBackOff := b, pc := CloseResp\<rparr>)
           else if resp_status s = 420 \<or> resp_status s = 429 then
             (let (w, b) = NextBackOff (aggOps E) (aggExpBackOff s)
              in s\<lparr>wait := w, aggExpBackOff := b, pc := CloseResp\<rparr>)
           else s\<lparr>pc := CloseOther\<rparr>)
      | CloseOther \<Rightarrow> (close_body (resp_body s) s)\<lparr>pc := Unwind None\<rparr>
      | RecvHead \<Rightarrow>
          (if stopped (done_ch s) then s\<lparr>pc := ResetBackOffs\<rparr> else s\<lparr>pc := ReadNext\<rparr>)
      | ReadNext \<Rightarrow>
          (case bodies s (resp_body s) of
             None \<Rightarrow> s\<lparr>pc := ResetBackOffs\<rparr>
           | Some b \<Rightarrow>
               (case readNext b of
                  None \<Rightarrow> s\<lparr>pc := ResetBackOffs\<rparr>
                | Some (data, b') \<Rightarrow>
                    (if length data = 0
                     then s\<lparr>bodies := (bodies s)(resp_body s \<mapsto> b'), pc := RecvHead\<rparr>
                     else s\<lparr>bodies := (bodies s)(resp_body s \<mapsto> b'), pc := Select data\<rparr>)))
      | Select data \<Rightarrow>
          (if done_ch s then s\<lparr>pc := ResetBackOffs\<rparr>
           else s\<lparr>pc := Send (fst (getMessage (json_Unmarshal E) data))\<rparr>)
      | Send msg \<Rightarrow> s
      | ResetBackOffs \<Rightarrow>
          s\<lparr>expBackOff := Reset (expOps E) (expBackOff s),
            aggExpBackOff := Reset (aggOps E) (aggExpBackOff s),
            pc := CloseResp\<rparr>
      | CloseResp \<Rightarrow> (close_body (resp_body s) s)\<lparr>pc := CheckWait\<rparr>
      | CheckWait \<Rightarrow>
          (if wait s = backoff_Stop then s\<lparr>pc := Unwind None\<rparr> else s\<lparr>pc := Sleep\<rparr>)
      | Sleep \<Rightarrow> s\<lparr>pc := RetryHead\<rparr>
      | Unwind p \<Rightarrow>
          (case defers s of
             d # ds \<Rightarrow> run_deferred d (s\<lparr>defers := ds\<rparr>)
           | [] \<Rightarrow> (case p of None \<Rightarrow> s\<lparr>pc := Exited\<rparr> | Some e \<Rightarrow> s\<lparr>crashed := Some e\<rparr>))
      | Exited \<Rightarrow> s)"

text \<open>
  The consumer receives from \<open>Messages\<close>: a receive completes the pending send, if
  there is one.
\<close>

definition consume_step :: "('t, 'b) Stream \<Rightarrow> ('t, 'b) Stream" where
  "consume_step s =
     (case pc s of
        Send msg \<Rightarrow> s\<lparr>Messages := Messages s @ [Sent msg], pc := RecvHead\<rparr>
      | _ \<Rightarrow> s)"

section \<open>Stop\<close>

text \<open>
  One step of the thread calling \<open>Stop\<close>: \<open>close(s.done)\<close>, which panics on a closed
  channel; closing \<open>s.body\<close> when it is not nil; \<open>s.group.Wait()\<close>, which blocks
  while the counter is not zero. Outside a call, the step enters a new call.
\<close>

definition stop_step :: "('t, 'b) Stream \<Rightarrow> ('t, 'b) Stream" where
  "stop_step s =
     (case caller s of
        NotInStop \<Rightarrow>
          (if done_ch s then s\<lparr>crashed := Some CloseOfClosedChannel\<rparr>
           else s\<lparr>done_ch := True, caller := StopBody\<rparr>)
      | StopBody \<Rightarrow>
          (case body s of
             None \<Rightarrow> s\<lparr>caller := StopWait\<rparr>
           | Some i \<Rightarrow> (close_body i s)\<lparr>caller := StopWait\<rparr>)
      | StopWait \<Rightarrow>
          (if group s = 0 then s\<lparr>caller := NotInStop, stop_returns := Suc (stop_returns s)\<rparr>
           else s))"

section \<open>The process\<close>

text \<open>The scheduler picks the thread that runs; a crashed process runs nothing.\<close>

definition step :: "('t, 'b) env \<Rightarrow> event \<Rightarrow> ('t, 'b) Stream \<Rightarrow> ('t, 'b) Stream" where
  "step E ev s =
     (if crashed s \<noteq> None then s
      else case ev of Go \<Rightarrow> go_step E s | Stop \<Rightarrow> stop_step s | Consume \<Rightarrow> consume_step s)"

fun run :: "('t, 'b) env \<Rightarrow> event list \<Rightarrow> ('t, 'b) Stream \<Rightarrow> ('t, 'b) Stream" where
  "run E [] s = s"
| "run E (ev # evs) s = run E evs (step E ev s)"

section \<open>A concrete world\<close>

text \<open>
  A doubling backoff that stops beyond its cap, a decoder that accepts the lines
  starting with a brace, and a client that answers from a script.
\<close>

definition demoBackOff :: "duration \<Rightarrow> duration \<Rightarrow> duration BackOff" where
  "demoBackOff init cap =
     \<lparr> NextBackOff = (\<lambda>i. if cap < i then (backoff_Stop, i) else (i, 2 * i)),
       Reset = (\<lambda>i. init) \<rparr>"

definition demoUnmarshal :: "bytes \<Rightarrow> goerror + string StreamData" where
  "demoUnmarshal l =
     (if take 1 l = ''{'' then Inr \<lparr>Tweet = Some l, MatchingRules = []\<rparr>
      else Inl ''invalid character'')"

definition demoEnv :: "do_result list \<Rightarrow> (string, duration) env" where
  "demoEnv rs =
     \<lparr> client_Do = (\<lambda>r n. if n < length rs then rs ! n else DoErr ''EOF''),
       json_Unmarshal = demoUnmarshal,
       expOps = demoBackOff 5 320,
       aggOps = demoBackOff 60 960,
       newExponentialBackOff = 5,
       newAggressiveExponentialBackOff = 60 \<rparr>"

definition demoReq :: Request where
  "demoReq = \<lparr>Method = ''GET'', URL = ''u'', Header = [], RawQuery = []\<rparr>"

definition demoLib :: lib where
  "demoLib =
     \<lparr> http_NewRequest = (\<lambda>m u. (Some \<lparr>Method = m, URL = u, Header = [], RawQuery = []\<rparr>, None)),
       query_Values = (\<lambda>p. ([], None)),
       values_Encode = (\<lambda>q. []) \<rparr>"

section \<open>Invariants of the reachable states\<close>

text \<open>Once \<open>Stop\<close> has been entered, \<open>done\<close> is closed.\<close>

definition stop_inv :: "('t, 'b) Stream \<Rightarrow> bool" where
  "stop_inv s = (caller s \<noteq> NotInStop \<or> 0 < stop_returns s \<longrightarrow> done_ch s)"

text \<open>
  The goroutine has left the loop of \<open>retry\<close> (\<open>finished\<close>) or is inside it
  (\<open>running\<close>). While it is inside, the deferred calls are the closings of the bodies
  obtained so far, then \<open>s.group.Done()\<close>, then \<open>close(s.Messages)\<close>; the wait group
  counts one and the message channel is open.
\<close>

fun finished :: "'t pc \<Rightarrow> bool" where
  "finished (Unwind p) = True"
| "finished Exited = True"
| "finished _ = False"




text \<open>
  The program points behind the \<open>select\<close> of \<open>receive\<close>; those of a cycle answered
  with 200 before and after the two \<open>Reset\<close> calls. \<open>reset_inv\<close> follows one such
  cycle, the one of request \<open>n\<close> entered with the backoff states \<open>e\<close> and \<open>a\<close>, up to
  the \<open>switch\<close> of the next cycle.
\<close>

fun past_receive :: "'t pc \<Rightarrow> bool" where
  "past_receive ResetBackOffs = True"
| "past_receive CloseResp = True"
| "past_receive CheckWait = True"
| "past_receive Sleep = True"
| "past_receive RetryHead = True"
| "past_receive (Unwind p) = True"
| "past_receive Exited = True"
| "past_receive _ = False"

fun before_reset :: "'t pc \<Rightarrow> bool" where
  "before_reset Switch = True"
| "before_reset RecvHead = True"
| "before_reset ReadNext = True"
| "before_reset (Select d) = True"
| "before_reset (Send m) = True"
| "before_reset ResetBackOffs = True"
| "before_reset _ = False"

fun after_reset :: "'t pc \<Rightarrow> bool" where
  "after_reset CloseResp = True"
| "after_reset CheckWait = True"
| "after_reset Sleep = True"
| "after_reset RetryHead = True"
| "after_reset DoRequest = True"
| "after_reset _ = False"

definition reset_inv ::
  "('t, 'b) env \<Rightarrow> nat \<Rightarrow> 'b \<Rightarrow> 'b \<Rightarrow> ('t, 'b) Stream \<Rightarrow> bool" where
  "reset_inv E n e a s =
     (n \<le> requests s
      \<and> (requests s = n \<longrightarrow>
            (before_reset (pc s) \<longrightarrow>
               resp_status s = 200 \<and> expBackOff s = e \<and> aggExpBackOff s = a)
          \<and> (after_reset (pc s) \<longrightarrow>
               expBackOff s = Reset (expOps E) e \<and> aggExpBackOff s = Reset (aggOps E) a)
          \<and> (before_reset (pc s) \<or> after_reset (pc s) \<or> finished (pc s)))
      \<and> (requests s = Suc n \<longrightarrow> pc s = SetBody \<or> pc s = Switch \<longrightarrow>
            expBackOff s = Reset (expOps E) e \<and> aggExpBackOff s = Reset (aggOps E) a))"

text \<open>
  The program points of a cycle between obtaining its response and closing its body.
  \<open>bodies_inv\<close>: every request answered with a response has its body recorded, and a
  body no \<open>Close\<close> has reached is the one of the cycle in progress.
\<close>

fun mid_cycle :: "'t pc \<Rightarrow> bool" where
  "mid_cycle SetBody = True"
| "mid_cycle Switch = True"
| "mid_cycle CloseOther = True"
| "mid_cycle RecvHead = True"
| "mid_cycle ReadNext = True"
| "mid_cycle (Select d) = True"
| "mid_cycle (Send m) = True"
| "mid_cycle ResetBackOffs = True"
| "mid_cycle CloseResp = True"
| "mid_cycle _ = False"

definition bodies_inv :: "('t, 'b) env \<Rightarrow> Request \<Rightarrow> ('t, 'b) Stream \<Rightarrow> bool" where
  "bodies_inv E r s =
     (req s = r
      \<and> (\<forall>n < requests s. \<forall>st ls. client_Do E r n = DoResp st ls \<longrightarrow> bodies s n \<noteq> None)
      \<and> (\<forall>i b. bodies s i = Some b \<longrightarrow> closes b = 0 \<longrightarrow> mid_cycle (pc s) \<and> i = resp_body s))"

text \<open>
  The program points inside the loop of \<open>receive\<close>. \<open>decode_line\<close> is the message
  \<open>receive\<close> takes from \<open>getMessage\<close> (the error is discarded); \<open>emits\<close> lists the
  messages of the non-empty lines of a body, in order; \<open>pending\<close> is the message of the
  line in hand. \<open>drain\<close> is the schedule in which the goroutine runs alone and the
  consumer receives each message as soon as it is offered. \<open>recv_inv\<close> follows one run
  of the loop, during request \<open>n\<close> on the body \<open>rb\<close>: what has been sent, what is in
  hand and what the unread lines will give add up to \<open>msgs\<close>.
\<close>

fun in_receive :: "'t pc \<Rightarrow> bool" where
  "in_receive RecvHead = True"
| "in_receive ReadNext = True"
| "in_receive (Select d) = True"
| "in_receive (Send m) = True"
| "in_receive _ = False"

definition decode_line :: "('t, 'b) env \<Rightarrow> bytes \<Rightarrow> 't StreamData option" where
  "decode_line E l = fst (getMessage (json_Unmarshal E) l)"

definition emits :: "('t, 'b) env \<Rightarrow> bytes list \<Rightarrow> 't StreamData option list" where
  "emits E ls = map (decode_line E) (filter (\<lambda>l. l \<noteq> []) ls)"

fun pending :: "('t, 'b) env \<Rightarrow> 't pc \<Rightarrow> 't StreamData option list" where
  "pending E (Select d) = [decode_line E d]"
| "pending E (Send m) = [m]"
| "pending E _ = []"

fun drain :: "bytes list \<Rightarrow> event list" where
  "drain [] = [Go, Go]"
| "drain (l # ls) = (if l = [] then [Go, Go] else [Go, Go, Go, Consume]) @ drain ls"

definition recv_inv ::
  "('t, 'b) env \<Rightarrow> nat \<Rightarrow> nat \<Rightarrow> 't StreamData option list \<Rightarrow> ('t, 'b) Stream \<Rightarrow> bool" where
  "recv_inv E n rb msgs s =
     (n \<le> requests s
      \<and> (requests s = n \<longrightarrow>
            \<not> done_ch s \<and> resp_body s = rb
          \<and> (in_receive (pc s) \<longrightarrow>
                (\<exists>b. bodies s rb = Some b \<and> closes b = 0
                   \<and> sent_msgs (Messages s) @ pending E (pc s) @ emits E (lines b) = msgs))
          \<and> (\<not> in_receive (pc s) \<longrightarrow>
                sent_msgs (Messages s) = msgs
              \<and> (pc s = ResetBackOffs \<or> after_reset (pc s) \<or> finished (pc s)))))"

section \<open>Runs\<close>

lemma run_append: "run E (xs @ ys) s = run E ys (run E xs s)"
  by (induction xs arbitrary: s) simp_all

lemma run_deferred_frame:
  "done_ch (run_deferred d s) = done_ch s"
  "caller (run_deferred d s) = caller s"
  "stop_returns (run_deferred d s) = stop_returns s"
  "requests (run_deferred d s) = requests s"
  "crashed (run_deferred d s) = crashed s"
  by (cases d; simp add: close_body_def)+

lemma go_step_frame:
  "done_ch (go_step E s) = done_ch s"
  "caller (go_step E s) = caller s"
  "stop_returns (go_step E s) = stop_returns s"
  by (simp_all add: go_step_def close_body_def run_deferred_frame
        split: pc.splits do_result.splits option.splits prod.splits list.splits)

lemma consume_step_frame:
  "done_ch (consume_step s) = done_ch s"
  "caller (consume_step s) = caller s"
  "stop_returns (consume_step s) = stop_returns s"
  "requests (consume_step s) = requests s"
  "crashed (consume_step s) = crashed s"
  by (simp_all add: consume_step_def split: pc.splits)

section \<open>Stop and the closing of the message channel\<close>

text \<open>
  Claim C4, at a failing schedule. The deferred calls of \<open>retry\<close> run last in, first
  out: \<open>s.group.Done()\<close> runs before \<open>close(s.Messages)\<close>. With a server answering
  404, the goroutine runs up to and including \<open>Done\<close>; the caller then runs
  \<open>Stop\<close> to its end. \<open>Stop\<close> has returned and the message channel is still open;
  the goroutine closes it one step later.
\<close>

theorem Stop_returns_before_Messages_closed:
  "stop_returns (run (demoEnv [DoResp 404 []])
       [Go, Go, Go, Go, Go, Go, Go, Go, Stop, Stop, Stop]
       (newStream (demoEnv [DoResp 404 []]) demoReq)) = 1
   \<and> \<not> is_closed (Messages (run (demoEnv [DoResp 404 []])
       [Go, Go, Go, Go, Go, Go, Go, Go, Stop, Stop, Stop]
       (newStream (demoEnv [DoResp 404 []]) demoReq)))
   \<and> crashed (run (demoEnv [DoResp 404 []])
       [Go, Go, Go, Go, Go, Go, Go, Go, Stop, Stop, Stop]
       (newStream (demoEnv [DoResp 404 []]) demoReq)) = None
   \<and> is_closed (Messages (run (demoEnv [DoResp 404 []])
       [Go, Go, Go, Go, Go, Go, Go, Go, Stop, Stop, Stop, Go]
       (newStream (demoEnv [DoResp 404 []]) demoReq)))"
  by code_simp

lemma stop_inv_step: "stop_inv s \<Longrightarrow> stop_inv (step E ev s)"
  by (cases ev)
     (auto simp: stop_inv_def step_def go_step_frame consume_step_frame stop_step_def
           close_body_def split: caller_pc.splits option.splits)

lemma stop_inv_run: "stop_inv s \<Longrightarrow> stop_inv (run E evs s)"
  by (induction evs arbitrary: s) (simp_all add: stop_inv_step)

lemma stop_inv_newStream: "stop_inv (newStream E r)"
  by (simp add: stop_inv_def newStream_def)

text \<open>
  Claim C2, as amended. Once a call of \<open>Stop\<close> has returned, \<open>done\<close> is closed, and
  the first statement of a second call, \<open>close(s.done)\<close>, panics with "close of closed
  channel": the call does not block and does not close the message channel again, but
  it is not a no-op, it ends the process.
\<close>

theorem second_Stop_panics:
  assumes "0 < stop_returns (run E sch (newStream E r))"
    and "caller (run E sch (newStream E r)) = NotInStop"
    and "crashed (run E sch (newStream E r)) = None"
  shows "crashed (step E Stop (run E sch (newStream E r))) = Some CloseOfClosedChannel
       \<and> Messages (step E Stop (run E sch (newStream E r))) = Messages (run E sch (newStream E r))
       \<and> stop_returns (step E Stop (run E sch (newStream E r))) = stop_returns (run E sch (newStream E r))"
proof -
  have "stop_inv (run E sch (newStream E r))"
    by (rule stop_inv_run) (rule stop_inv_newStream)
  with assms(1) have "done_ch (run E sch (newStream E r))"
    by (simp add: stop_inv_def)
  with assms(2,3) show ?thesis
    by (simp add: step_def stop_step_def)
qed

text \<open>The claim as stated fails: after a finished session and a first \<open>Stop\<close>, the second one panics.\<close>

theorem second_Stop_panics_counterexample:
  "crashed (run (demoEnv [DoResp 404 []])
      [Go, Go, Go, Go, Go, Go, Go, Go, Go, Go, Stop, Stop, Stop, Stop]
      (newStream (demoEnv [DoResp 404 []]) demoReq)) = Some CloseOfClosedChannel"
  by code_simp

theorem second_Stop_panics_witness:
  "0 < stop_returns (run (demoEnv [DoResp 404 []])
      [Go, Go, Go, Go, Go, Go, Go, Go, Go, Go, Stop, Stop, Stop]
      (newStream (demoEnv [DoResp 404 []]) demoReq))
   \<and> crashed (step (demoEnv [DoResp 404 []]) Stop (run (demoEnv [DoResp 404 []])
      [Go, Go, Go, Go, Go, Go, Go, Go, Go, Go, Stop, Stop, Stop]
      (newStream (demoEnv [DoResp 404 []]) demoReq))) = Some CloseOfClosedChannel"
proof -
  let ?E = "demoEnv [DoResp 404 []]"
  let ?sch = "[Go, Go, Go, Go, Go, Go, Go, Go, Go, Go, Stop, Stop, Stop]"
  have a: "0 < stop_returns (run ?E ?sch (newStream ?E demoReq))" by code_simp
  have b: "caller (run ?E ?sch (newStream ?E demoReq)) = NotInStop" by code_simp
  have c: "crashed (run ?E ?sch (newStream ?E demoReq)) = None" by code_simp
  from second_Stop_panics [OF a b c] a show ?thesis by simp
qed

section \<open>Connect\<close>

text \<open>
  Claim C10. \<open>Connect\<close> never returns an error to its caller, whatever the
  parameters, the token and the results of the libraries: the errors of
  \<open>http.NewRequest\<close> and \<open>query.Values\<close> are discarded. Whenever \<open>http.NewRequest\<close>
  yields a request for the constant method and URL, \<open>Connect\<close> returns a session (the
  one made by \<open>newStream\<close>) and a nil error.
\<close>

theorem Connect_never_returns_error:
  "Connect L E srv params \<noteq> Inr (x, Some e)
   \<and> (fst (http_NewRequest L ''GET'' (streamV2Endpoint @ ''/'' @ ''stream'')) = Some r0 \<longrightarrow>
        Connect L E srv params =
          Inr (Some (newStream E
                 (r0\<lparr>Header := header_Set (Header r0) ''Authorization'' (''Bearer '' @ token srv),
                     RawQuery := values_Encode L (fst (query_Values L params))\<rparr>)), None))"
  by (auto simp: Connect_def createStreamRequest_def Let_def split: option.splits sum.splits)

theorem Connect_never_returns_error_witness:
  "fst (http_NewRequest demoLib ''GET'' (streamV2Endpoint @ ''/'' @ ''stream''))
     = Some \<lparr>Method = ''GET'', URL = streamV2Endpoint @ ''/'' @ ''stream'', Header = [], RawQuery = []\<rparr>
   \<and> Connect demoLib (demoEnv []) \<lparr>token = ''t''\<rparr> None =
      Inr (Some (newStream (demoEnv [])
         \<lparr>Method = ''GET'', URL = streamV2Endpoint @ ''/'' @ ''stream'',
           Header = [(''Authorization'', ''Bearer t'')], RawQuery = []\<rparr>), None)"
proof -
  have h: "fst (http_NewRequest demoLib ''GET'' (streamV2Endpoint @ ''/'' @ ''stream''))
     = Some \<lparr>Method = ''GET'', URL = streamV2Endpoint @ ''/'' @ ''stream'', Header = [], RawQuery = []\<rparr>"
    by (simp add: demoLib_def)
  from Connect_never_returns_error [of demoLib "demoEnv []" "\<lparr>token = ''t''\<rparr>" None]
  have "Connect demoLib (demoEnv []) \<lparr>token = ''t''\<rparr> None =
          Inr (Some (newStream (demoEnv [])
                 (\<lparr>Method = ''GET'', URL = streamV2Endpoint @ ''/'' @ ''stream'', Header = [], RawQuery = []\<rparr>
                   \<lparr>Header := header_Set (Header \<lparr>Method = ''GET'', URL = streamV2Endpoint @ ''/'' @ ''stream'', Header = [], RawQuery = []\<rparr>) ''Authorization'' (''Bearer '' @ token \<lparr>token = ''t''\<rparr>),
                     RawQuery := values_Encode demoLib (fst (query_Values demoLib None))\<rparr>)), None)"
    using h by blast
  then show ?thesis using h by (simp add: header_Set_def demoLib_def)
qed

section \<open>The receive loop\<close>

text \<open>
  Claim C1, as amended. For a non-empty line whose decoding fails, \<open>receive\<close> discards
  the error of \<open>getMessage\<close> and sends the nil message it returned on the message
  channel: the line is not dropped. The loop is back at its head afterwards, with the
  rest of the body still to read: the malformed line does not end it.
\<close>

theorem malformed_line_sends_nil:
  assumes "pc s = ReadNext" and "crashed s = None" and "\<not> done_ch s"
    and "bodies s (resp_body s) = Some b" and "closes b = 0" and "lines b = l # ls"
    and "l \<noteq> []" and "json_Unmarshal E l = Inl err"
  shows "Messages (run E [Go, Go, Consume] s) = Messages s @ [Sent None]
       \<and> pc (run E [Go, Go, Consume] s) = RecvHead
       \<and> bodies (run E [Go, Go, Consume] s) (resp_body s) = Some (b\<lparr>lines := ls\<rparr>)
       \<and> crashed (run E [Go, Go, Consume] s) = None"
  using assms
  by (simp add: step_def go_step_def consume_step_def readNext_def getMessage_def)

theorem malformed_line_sends_nil_witness:
  "Messages (run (demoEnv [DoResp 200 [''oops'', ''{}'']]) [Go, Go, Consume]
      (run (demoEnv [DoResp 200 [''oops'', ''{}'']]) [Go, Go, Go, Go, Go, Go]
        (newStream (demoEnv [DoResp 200 [''oops'', ''{}'']]) demoReq))) = [Sent None]
   \<and> pc (run (demoEnv [DoResp 200 [''oops'', ''{}'']]) [Go, Go, Consume]
      (run (demoEnv [DoResp 200 [''oops'', ''{}'']]) [Go, Go, Go, Go, Go, Go]
        (newStream (demoEnv [DoResp 200 [''oops'', ''{}'']]) demoReq))) = RecvHead"
proof -
  let ?E = "demoEnv [DoResp 200 [''oops'', ''{}'']]"
  let ?s = "run ?E [Go, Go, Go, Go, Go, Go] (newStream ?E demoReq)"
  have 1: "pc ?s = ReadNext" by code_simp
  have 2: "crashed ?s = None" by code_simp
  have 3: "\<not> done_ch ?s" by code_simp
  have 4: "bodies ?s (resp_body ?s) = Some \<lparr>lines = [''oops'', ''{}''], closes = 0\<rparr>" by code_simp
  have 5: "closes \<lparr>lines = [''oops'', ''{}''], closes = 0\<rparr> = 0" by simp
  have 6: "lines \<lparr>lines = [''oops'', ''{}''], closes = 0\<rparr> = ''oops'' # [''{}'']" by simp
  have 7: "''oops'' \<noteq> []" by simp
  have 8: "json_Unmarshal ?E ''oops'' = Inl ''invalid character''" by code_simp
  have 9: "Messages ?s = []" by code_simp
  from malformed_line_sends_nil [OF 1 2 3 4 5 6 7 8] 9 show ?thesis by simp
qed

text \<open>The claim as stated fails: a body with one malformed line makes the consumer receive a nil message.\<close>

theorem malformed_line_counterexample:
  "sent_msgs (Messages (run (demoEnv [DoResp 200 [''oops'']])
      [Go, Go, Go, Go, Go, Go, Go, Go, Consume]
      (newStream (demoEnv [DoResp 200 [''oops'']]) demoReq))) = [None]"
  by code_simp

section \<open>The retry loop\<close>

lemma sent_msgs_append: "sent_msgs (c @ d) = sent_msgs c @ sent_msgs d"
  by (induction c rule: sent_msgs.induct) simp_all

lemma run_deferred_finished:
  "finished (pc s) \<Longrightarrow> finished (pc (run_deferred d s))"
  by (cases d) (simp_all add: close_body_def)

lemma run_deferred_sent:
  "sent_msgs (Messages (run_deferred d s)) = sent_msgs (Messages s)"
  by (cases d) (simp_all add: close_body_def sent_msgs_append)

lemma finished_step:
  assumes "finished (pc s)"
  shows "finished (pc (step E ev s)) \<and> requests (step E ev s) = requests s
       \<and> sent_msgs (Messages (step E ev s)) = sent_msgs (Messages s)"
proof (cases "pc s")
  case (Unwind p)
  then show ?thesis
    by (cases ev)
       (auto simp: step_def go_step_def consume_step_def stop_step_def close_body_def
          run_deferred_frame run_deferred_finished run_deferred_sent
          split: list.splits option.splits caller_pc.splits)
next
  case Exited
  then show ?thesis
    by (cases ev)
       (auto simp: step_def go_step_def consume_step_def stop_step_def close_body_def
          split: option.splits caller_pc.splits)
qed (use assms in simp_all)

lemma finished_run:
  "finished (pc s) \<Longrightarrow>
     finished (pc (run E evs s)) \<and> requests (run E evs s) = requests s
     \<and> sent_msgs (Messages (run E evs s)) = sent_msgs (Messages s)"
proof (induction evs arbitrary: s)
  case Nil
  then show ?case by simp
next
  case (Cons ev evs)
  from finished_step [OF Cons.prems, of E ev] Cons.IH [of "step E ev s"]
  show ?case by simp
qed

text \<open>
  Claim C6. At the \<open>switch\<close> on the status code of a response: 503 advances the
  standard backoff and leaves the aggressive one alone; 420 and 429 advance the
  aggressive backoff and leave the standard one alone; any other status but 200
  makes \<open>retry\<close> return (no panic) with both policies untouched. When the policy
  advanced yields \<open>backoff.Stop\<close>, \<open>retry\<close> returns instead of sleeping. Once it is
  returning, no schedule makes it issue another request.
\<close>

theorem retry_switch_on_status:
  assumes "pc s = Switch" and "crashed s = None"
  shows "(resp_status s = 503 \<longrightarrow>
            wait (run E [Go] s) = fst (NextBackOff (expOps E) (expBackOff s))
          \<and> expBackOff (run E [Go] s) = snd (NextBackOff (expOps E) (expBackOff s))
          \<and> aggExpBackOff (run E [Go] s) = aggExpBackOff s
          \<and> pc (run E [Go, Go, Go] s) =
               (if fst (NextBackOff (expOps E) (expBackOff s)) = backoff_Stop
                then Unwind None else Sleep)
          \<and> (fst (NextBackOff (expOps E) (expBackOff s)) = backoff_Stop \<longrightarrow>
                (\<forall>sch. requests (run E ([Go, Go, Go] @ sch) s) = requests s)))
       \<and> (resp_status s = 420 \<or> resp_status s = 429 \<longrightarrow>
            wait (run E [Go] s) = fst (NextBackOff (aggOps E) (aggExpBackOff s))
          \<and> aggExpBackOff (run E [Go] s) = snd (NextBackOff (aggOps E) (aggExpBackOff s))
          \<and> expBackOff (run E [Go] s) = expBackOff s
          \<and> pc (run E [Go, Go, Go] s) =
               (if fst (NextBackOff (aggOps E) (aggExpBackOff s)) = backoff_Stop
                then Unwind None else Sleep)
          \<and> (fst (NextBackOff (aggOps E) (aggExpBackOff s)) = backoff_Stop \<longrightarrow>
                (\<forall>sch. requests (run E ([Go, Go, Go] @ sch) s) = requests s)))
       \<and> (resp_status s \<noteq> 200 \<and> resp_status s \<noteq> 503 \<and> resp_status s \<noteq> 420
             \<and> resp_status s \<noteq> 429 \<longrightarrow>
            pc (run E [Go, Go] s) = Unwind None
          \<and> crashed (run E [Go, Go] s) = None
          \<and> expBackOff (run E [Go, Go] s) = expBackOff s
          \<and> aggExpBackOff (run E [Go, Go] s) = aggExpBackOff s
          \<and> (\<forall>sch. requests (run E ([Go, Go] @ sch) s) = requests s))"
proof -
  note defs = step_def go_step_def close_body_def case_prod_beta Let_def
  have a: "resp_status s = 503 \<Longrightarrow>
            wait (run E [Go] s) = fst (NextBackOff (expOps E) (expBackOff s))
          \<and> expBackOff (run E [Go] s) = snd (NextBackOff (expOps E) (expBackOff s))
          \<and> aggExpBackOff (run E [Go] s) = aggExpBackOff s
          \<and> requests (run E [Go, Go, Go] s) = requests s
          \<and> pc (run E [Go, Go, Go] s) =
               (if fst (NextBackOff (expOps E) (expBackOff s)) = backoff_Stop
                then Unwind None else Sleep)"
    using assms by (simp add: defs)
  have b: "resp_status s = 420 \<or> resp_status s = 429 \<Longrightarrow>
            wait (run E [Go] s) = fst (NextBackOff (aggOps E) (aggExpBackOff s))
          \<and> aggExpBackOff (run E [Go] s) = snd (NextBackOff (aggOps E) (aggExpBackOff s))
          \<and> expBackOff (run E [Go] s) = expBackOff s
          \<and> requests (run E [Go, Go, Go] s) = requests s
          \<and> pc (run E [Go, Go, Go] s) =
               (if fst (NextBackOff (aggOps E) (aggExpBackOff s)) = backoff_Stop
                then Unwind None else Sleep)"
    using assms by (auto simp: defs)
  have c: "resp_status s \<noteq> 200 \<and> resp_status s \<noteq> 503 \<and> resp_status s \<noteq> 420
             \<and> resp_status s \<noteq> 429 \<Longrightarrow>
            pc (run E [Go, Go] s) = Unwind None
          \<and> crashed (run E [Go, Go] s) = None
          \<and> expBackOff (run E [Go, Go] s) = expBackOff s
          \<and> aggExpBackOff (run E [Go, Go] s) = aggExpBackOff s
          \<and> requests (run E [Go, Go] s) = requests s"
    using assms by (simp add: defs)
  have d: "requests (run E (pre @ sch) s) = requests (run E pre s)"
    if "pc (run E pre s) = Unwind None" for pre sch
    using finished_run [of "run E pre s" E sch] that by (simp add: run_append)
  show ?thesis
    using a b c d [of "[Go, Go, Go]"] d [of "[Go, Go]"] by presburger
qed

theorem retry_switch_on_status_witness:
  "pc (run (demoEnv [DoResp 503 []]) [Go, Go, Go, Go] (newStream (demoEnv [DoResp 503 []]) demoReq)) = Switch
   \<and> wait (run (demoEnv [DoResp 503 []]) [Go]
        (run (demoEnv [DoResp 503 []]) [Go, Go, Go, Go] (newStream (demoEnv [DoResp 503 []]) demoReq))) = 5
   \<and> pc (run (demoEnv [DoResp 503 []]) [Go, Go, Go]
        (run (demoEnv [DoResp 503 []]) [Go, Go, Go, Go] (newStream (demoEnv [DoResp 503 []]) demoReq))) = Sleep
   \<and> pc (run (demoEnv [DoResp 429 []]) [Go, Go, Go]
        ((run (demoEnv [DoResp 429 []]) [Go, Go, Go, Go] (newStream (demoEnv [DoResp 429 []]) demoReq))
           \<lparr>aggExpBackOff := 1920\<rparr>)) = Unwind None
   \<and> requests (run (demoEnv [DoResp 429 []]) ([Go, Go, Go] @ [Go, Go, Go, Go, Stop, Consume])
        ((run (demoEnv [DoResp 429 []]) [Go, Go, Go, Go] (newStream (demoEnv [DoResp 429 []]) demoReq))
           \<lparr>aggExpBackOff := 1920\<rparr>)) = 1
   \<and> pc (run (demoEnv [DoResp 404 []]) [Go, Go]
        (run (demoEnv [DoResp 404 []]) [Go, Go, Go, Go] (newStream (demoEnv [DoResp 404 []]) demoReq))) = Unwind None"
proof -
  let ?E1 = "demoEnv [DoResp 503 []]"
  let ?s1 = "run ?E1 [Go, Go, Go, Go] (newStream ?E1 demoReq)"
  let ?E2 = "demoEnv [DoResp 429 []]"
  let ?s2 = "(run ?E2 [Go, Go, Go, Go] (newStream ?E2 demoReq))\<lparr>aggExpBackOff := 1920\<rparr>"
  let ?E3 = "demoEnv [DoResp 404 []]"
  let ?s3 = "run ?E3 [Go, Go, Go, Go] (newStream ?E3 demoReq)"
  have p1: "pc ?s1 = Switch" and c1: "crashed ?s1 = None" and r1: "resp_status ?s1 = 503"
    and n1: "NextBackOff (expOps ?E1) (expBackOff ?s1) = (5, 10)"
    by code_simp+
  have p2: "pc ?s2 = Switch" and c2: "crashed ?s2 = None" and r2: "resp_status ?s2 = 429"
    and n2: "NextBackOff (aggOps ?E2) (aggExpBackOff ?s2) = (backoff_Stop, 1920)"
    and q2: "requests ?s2 = 1"
    by code_simp+
  have p3: "pc ?s3 = Switch" and c3: "crashed ?s3 = None" and r3: "resp_status ?s3 = 404"
    by code_simp+
  from retry_switch_on_status [OF p1 c1, of ?E1] r1 n1
  have w1: "wait (run ?E1 [Go] ?s1) = 5 \<and> pc (run ?E1 [Go, Go, Go] ?s1) = Sleep"
    by (simp add: backoff_Stop_def)
  from retry_switch_on_status [OF p2 c2, of ?E2] r2 n2 q2
  have w2: "pc (run ?E2 [Go, Go, Go] ?s2) = Unwind None
      \<and> requests (run ?E2 ([Go, Go, Go] @ [Go, Go, Go, Go, Stop, Consume]) ?s2) = 1"
    by (simp del: run.simps append.simps)
  from retry_switch_on_status [OF p3 c3, of ?E3] r3
  have w3: "pc (run ?E3 [Go, Go] ?s3) = Unwind None"
    by simp
  from p1 w1 w2 w3 show ?thesis by blast
qed

section \<open>Transport errors\<close>













section \<open>Cancellation at the send\<close>

lemma finished_past_receive: "finished p \<Longrightarrow> past_receive p"
  by (cases p) simp_all

lemma cancelled_step:
  assumes "done_ch s" and "past_receive (pc s)"
  shows "done_ch (step E ev s) \<and> past_receive (pc (step E ev s))
       \<and> sent_msgs (Messages (step E ev s)) = sent_msgs (Messages s)"
proof (cases "finished (pc s)")
  case True
  from finished_step [OF True, of E ev] have
    "past_receive (pc (step E ev s))" "sent_msgs (Messages (step E ev s)) = sent_msgs (Messages s)"
    by (simp_all add: finished_past_receive)
  moreover have "done_ch (step E ev s)"
    using assms(1)
    by (cases ev) (auto simp: step_def go_step_frame consume_step_frame stop_step_def close_body_def
         split: caller_pc.splits option.splits)
  ultimately show ?thesis by simp
next
  case False
  with assms show ?thesis
    by (cases ev; cases "pc s")
       (auto simp: step_def go_step_def consume_step_def stop_step_def close_body_def stopped_def
          split: caller_pc.splits option.splits)
qed

lemma cancelled_run:
  "done_ch s \<Longrightarrow> past_receive (pc s) \<Longrightarrow>
     sent_msgs (Messages (run E evs s)) = sent_msgs (Messages s)"
proof (induction evs arbitrary: s)
  case Nil
  then show ?case by simp
next
  case (Cons ev evs)
  from cancelled_step [OF Cons.prems, of E ev] Cons.IH [of "step E ev s"]
  show ?case by simp
qed

text \<open>
  When \<open>done\<close> is closed at the moment the \<open>select\<close> of \<open>receive\<close> runs, the goroutine
  leaves the loop without sending, and nothing is sent afterwards.
\<close>

lemma select_sees_done_closed:
  assumes "pc s = Select data" and "done_ch s" and "crashed s = None"
  shows "pc (run E [Go] s) = ResetBackOffs
       \<and> Messages (run E [Go] s) = Messages s
       \<and> (\<forall>sch. sent_msgs (Messages (run E (Go # sch) s)) = sent_msgs (Messages s))"
proof -
  have s': "step E Go s = s\<lparr>pc := ResetBackOffs\<rparr>"
    using assms by (simp add: step_def go_step_def)
  have "sent_msgs (Messages (run E sch (step E Go s))) = sent_msgs (Messages s)" for sch
    using cancelled_run [of "step E Go s" E sch] assms(2) by (simp add: s')
  then show ?thesis by (simp add: s')
qed

text \<open>
  The send itself is in the \<open>default\<close> branch, outside the \<open>select\<close>: once that branch
  is taken, \<open>s.Messages <- msg\<close> never looks at \<open>done\<close>. While no receive happens the
  goroutine stays at the send, and a \<open>Stop\<close> that has been entered stays in it.
\<close>

lemma blocked_step:
  assumes "pc s = Send m" and "group s \<noteq> 0" and "caller s \<noteq> NotInStop" and "ev \<noteq> Consume"
  shows "pc (step E ev s) = Send m \<and> group (step E ev s) \<noteq> 0
       \<and> caller (step E ev s) \<noteq> NotInStop
       \<and> stop_returns (step E ev s) = stop_returns s
       \<and> Messages (step E ev s) = Messages s"
  using assms
  by (cases ev)
     (auto simp: step_def go_step_def stop_step_def close_body_def
        split: caller_pc.splits option.splits)

lemma blocked_run:
  "pc s = Send m \<Longrightarrow> group s \<noteq> 0 \<Longrightarrow> caller s \<noteq> NotInStop \<Longrightarrow>
     pc (run E (filter (\<lambda>ev. ev \<noteq> Consume) sch) s) = Send m
     \<and> stop_returns (run E (filter (\<lambda>ev. ev \<noteq> Consume) sch) s) = stop_returns s
     \<and> Messages (run E (filter (\<lambda>ev. ev \<noteq> Consume) sch) s) = Messages s"
proof (induction sch arbitrary: s)
  case Nil
  then show ?case by simp
next
  case (Cons ev sch)
  show ?case
  proof (cases "ev = Consume")
    case True
    with Cons show ?thesis by simp
  next
    case False
    from blocked_step [OF Cons.prems False, of E] Cons.IH [of "step E ev s"] False
    show ?thesis by simp
  qed
qed

text \<open>
  Claim C8, at a failing schedule. The server answers 200 with one well-formed line;
  the goroutine takes the \<open>default\<close> branch of the \<open>select\<close> and stands at the send;
  the caller then closes \<open>done\<close>. The cancellation signal is set at the moment of
  the send, yet the message is not discarded and the loop does not exit: under every
  schedule without a receive the goroutine is still at the send and \<open>Stop\<close> has not
  returned, and when the consumer does receive, the message is delivered.
\<close>

theorem send_after_default_is_not_cancellable:
  "pc (run (demoEnv [DoResp 200 [''{1}'']]) [Go, Go, Go, Go, Go, Go, Go, Go, Stop]
         (newStream (demoEnv [DoResp 200 [''{1}'']]) demoReq))
     = Send (Some \<lparr>Tweet = Some ''{1}'', MatchingRules = []\<rparr>)
   \<and> done_ch (run (demoEnv [DoResp 200 [''{1}'']]) [Go, Go, Go, Go, Go, Go, Go, Go, Stop]
         (newStream (demoEnv [DoResp 200 [''{1}'']]) demoReq))
   \<and> pc (run (demoEnv [DoResp 200 [''{1}'']])
         ([Go, Go, Go, Go, Go, Go, Go, Go, Stop] @ filter (\<lambda>ev. ev \<noteq> Consume) sch)
         (newStream (demoEnv [DoResp 200 [''{1}'']]) demoReq))
     = Send (Some \<lparr>Tweet = Some ''{1}'', MatchingRules = []\<rparr>)
   \<and> stop_returns (run (demoEnv [DoResp 200 [''{1}'']])
         ([Go, Go, Go, Go, Go, Go, Go, Go, Stop] @ filter (\<lambda>ev. ev \<noteq> Consume) sch)
         (newStream (demoEnv [DoResp 200 [''{1}'']]) demoReq)) = 0
   \<and> sent_msgs (Messages (run (demoEnv [DoResp 200 [''{1}'']])
         ([Go, Go, Go, Go, Go, Go, Go, Go, Stop] @ [Stop, Go, Stop, Go, Consume])
         (newStream (demoEnv [DoResp 200 [''{1}'']]) demoReq)))
     = [Some \<lparr>Tweet = Some ''{1}'', MatchingRules = []\<rparr>]"
proof -
  let ?E = "demoEnv [DoResp 200 [''{1}'']]"
  let ?m = "Some \<lparr>Tweet = Some ''{1}'', MatchingRules = []\<rparr>"
  let ?s = "run ?E [Go, Go, Go, Go, Go, Go, Go, Go, Stop] (newStream ?E demoReq)"
  have a: "pc ?s = Send ?m" and b: "done_ch ?s" and c: "group ?s \<noteq> 0"
    and d: "caller ?s \<noteq> NotInStop" and e: "stop_returns ?s = 0"
    by code_simp+
  have f: "sent_msgs (Messages (run ?E [Stop, Go, Stop, Go, Consume] ?s)) = [?m]"
    by code_simp
  from blocked_run [OF a c d, of ?E sch] e
  have g: "pc (run ?E (filter (\<lambda>ev. ev \<noteq> Consume) sch) ?s) = Send ?m
      \<and> stop_returns (run ?E (filter (\<lambda>ev. ev \<noteq> Consume) sch) ?s) = 0"
    by simp
  from a b f g show ?thesis
    by (simp only: run_append) 
qed

section \<open>Resetting the backoff policies\<close>

lemma reset_inv_step: "reset_inv E n e a s \<Longrightarrow> reset_inv E n e a (step E ev s)"
proof (cases ev)
  case Stop
  assume "reset_inv E n e a s"
  then show ?thesis using Stop
    by (auto simp: reset_inv_def step_def stop_step_def close_body_def
          split: caller_pc.splits option.splits)
next
  case Consume
  assume "reset_inv E n e a s"
  then show ?thesis using Consume
    by (cases "pc s") (auto simp: reset_inv_def step_def consume_step_def)
next
  case Go
  assume inv: "reset_inv E n e a s"
  show ?thesis
  proof (cases "finished (pc s)")
    case True
    from finished_step [OF True, of E Go]
    have f: "finished (pc (step E Go s))" "requests (step E Go s) = requests s"
      by simp_all
    from f(1) have "\<not> before_reset (pc (step E Go s)) \<and> \<not> after_reset (pc (step E Go s))
        \<and> pc (step E Go s) \<noteq> SetBody \<and> pc (step E Go s) \<noteq> Switch"
      by (cases "pc (step E Go s)") simp_all
    with inv f Go show ?thesis
      by (simp add: reset_inv_def)
  next
    case False
    with inv Go show ?thesis
      by (cases "pc s")
         (auto simp: reset_inv_def step_def go_step_def close_body_def stopped_def
            case_prod_beta readNext_def
            split: do_result.splits option.splits list.splits if_splits)
  qed
qed

lemma reset_inv_run: "reset_inv E n e a s \<Longrightarrow> reset_inv E n e a (run E evs s)"
  by (induction evs arbitrary: s) (simp_all add: reset_inv_step)

text \<open>
  Claim C7. In a cycle answered with 200, under every schedule: from the moment the
  goroutine is past the two \<open>Reset\<close> calls that follow \<open>receive\<close>, through the close of
  the body, the sleep and the next request, up to the \<open>switch\<close> of the next cycle
  (where the next wait is computed), both backoff policies are in the state their
  \<open>Reset\<close> produced.
\<close>

theorem backoffs_reset_after_receive:
  assumes "pc s = Switch" and "resp_status s = 200"
  shows "(requests (run E sch s) = requests s \<and> after_reset (pc (run E sch s)))
         \<or> (requests (run E sch s) = Suc (requests s)
             \<and> (pc (run E sch s) = SetBody \<or> pc (run E sch s) = Switch))
       \<longrightarrow> expBackOff (run E sch s) = Reset (expOps E) (expBackOff s)
         \<and> aggExpBackOff (run E sch s) = Reset (aggOps E) (aggExpBackOff s)"
proof -
  have "reset_inv E (requests s) (expBackOff s) (aggExpBackOff s) s"
    using assms by (simp add: reset_inv_def)
  then have "reset_inv E (requests s) (expBackOff s) (aggExpBackOff s) (run E sch s)"
    by (rule reset_inv_run)
  then show ?thesis
    by (auto simp: reset_inv_def)
qed

theorem backoffs_reset_after_receive_witness:
  "pc (run (demoEnv [DoResp 503 [], DoResp 200 []]) [Go, Go, Go, Go, Go, Go, Go, Go, Go, Go, Go]
         (newStream (demoEnv [DoResp 503 [], DoResp 200 []]) demoReq)) = Switch
   \<and> expBackOff (run (demoEnv [DoResp 503 [], DoResp 200 []]) [Go, Go, Go, Go, Go, Go, Go, Go, Go, Go, Go]
         (newStream (demoEnv [DoResp 503 [], DoResp 200 []]) demoReq)) = 10
   \<and> pc (run (demoEnv [DoResp 503 [], DoResp 200 []]) [Go, Go, Go, Go]
        (run (demoEnv [DoResp 503 [], DoResp 200 []]) [Go, Go, Go, Go, Go, Go, Go, Go, Go, Go, Go]
         (newStream (demoEnv [DoResp 503 [], DoResp 200 []]) demoReq))) = CloseResp
   \<and> expBackOff (run (demoEnv [DoResp 503 [], DoResp 200 []]) [Go, Go, Go, Go]
        (run (demoEnv [DoResp 503 [], DoResp 200 []]) [Go, Go, Go, Go, Go, Go, Go, Go, Go, Go, Go]
         (newStream (demoEnv [DoResp 503 [], DoResp 200 []]) demoReq))) = 5
   \<and> aggExpBackOff (run (demoEnv [DoResp 503 [], DoResp 200 []]) [Go, Go, Go, Go]
        (run (demoEnv [DoResp 503 [], DoResp 200 []]) [Go, Go, Go, Go, Go, Go, Go, Go, Go, Go, Go]
         (newStream (demoEnv [DoResp 503 [], DoResp 200 []]) demoReq))) = 60"
proof -
  let ?E = "demoEnv [DoResp 503 [], DoResp 200 []]"
  let ?s = "run ?E [Go, Go, Go, Go, Go, Go, Go, Go, Go, Go, Go] (newStream ?E demoReq)"
  let ?t = "run ?E [Go, Go, Go, Go] ?s"
  have a: "pc ?s = Switch" and b: "resp_status ?s = 200" and c: "expBackOff ?s = 10"
    by code_simp+
  have d: "requests ?t = requests ?s" and e: "pc ?t = CloseResp"
    by code_simp+
  have f: "Reset (expOps ?E) (expBackOff ?s) = 5" "Reset (aggOps ?E) (aggExpBackOff ?s) = 60"
    by code_simp+
  from backoffs_reset_after_receive [OF a b, of ?E "[Go, Go, Go, Go]"] d e
  have "expBackOff ?t = Reset (expOps ?E) (expBackOff ?s)
      \<and> aggExpBackOff ?t = Reset (aggOps ?E) (aggExpBackOff ?s)"
    by (simp del: run.simps)
  with a c e f show ?thesis by (simp del: run.simps)
qed

section \<open>Closing the response bodies\<close>

lemma close_body_bodies:
  "bodies (close_body i s) j =
     (if j = i then map_option (\<lambda>b. b\<lparr>closes := Suc (closes b)\<rparr>) (bodies s i) else bodies s j)"
  by (simp add: close_body_def)

lemma bodies_inv_frame:
  assumes "bodies_inv E r s" and "req s' = req s" and "requests s' = requests s"
    and "bodies s' = bodies s" and "resp_body s' = resp_body s"
    and "mid_cycle (pc s) \<Longrightarrow> mid_cycle (pc s')"
  shows "bodies_inv E r s'"
  using assms unfolding bodies_inv_def by metis

lemma bodies_inv_close_body:
  assumes "bodies_inv E r s"
  shows "bodies_inv E r (close_body i s)"
  unfolding bodies_inv_def
proof (intro conjI allI impI)
  show "req (close_body i s) = r"
    using assms by (simp add: close_body_def bodies_inv_def)
next
  fix n st ls assume "n < requests (close_body i s)" "client_Do E r n = DoResp st ls"
  then have "bodies s n \<noteq> None"
    using assms by (simp add: close_body_def bodies_inv_def)
  then show "bodies (close_body i s) n \<noteq> None"
    by (auto simp: close_body_bodies)
next
  fix j b assume b: "bodies (close_body i s) j = Some b" "closes b = 0"
  then have "bodies s j = Some b"
    by (auto simp: close_body_bodies split: if_splits)
  with assms b(2) have "mid_cycle (pc s) \<and> j = resp_body s"
    by (simp add: bodies_inv_def)
  then show "mid_cycle (pc (close_body i s))" "j = resp_body (close_body i s)"
    by (simp_all add: close_body_def)
qed

lemma bodies_inv_close_resp:
  assumes "bodies_inv E r s"
  shows "bodies_inv E r ((close_body (resp_body s) s)\<lparr>pc := p\<rparr>)"
  unfolding bodies_inv_def
proof (intro conjI allI impI)
  show "req ((close_body (resp_body s) s)\<lparr>pc := p\<rparr>) = r"
    using assms by (simp add: close_body_def bodies_inv_def)
next
  fix n st ls
  assume "n < requests ((close_body (resp_body s) s)\<lparr>pc := p\<rparr>)" "client_Do E r n = DoResp st ls"
  then have "bodies s n \<noteq> None"
    using assms by (simp add: close_body_def bodies_inv_def)
  then show "bodies ((close_body (resp_body s) s)\<lparr>pc := p\<rparr>) n \<noteq> None"
    by (auto simp: close_body_bodies)
next
  fix j b
  assume b: "bodies ((close_body (resp_body s) s)\<lparr>pc := p\<rparr>) j = Some b" "closes b = 0"
  then have "bodies s j = Some b \<and> j \<noteq> resp_body s"
    by (auto simp: close_body_bodies split: if_splits)
  with assms b(2) have False
    unfolding bodies_inv_def by blast
  then show "mid_cycle (pc ((close_body (resp_body s) s)\<lparr>pc := p\<rparr>))"
    "j = resp_body ((close_body (resp_body s) s)\<lparr>pc := p\<rparr>)"
    by simp_all
qed

lemma bodies_inv_all_closed:
  "bodies_inv E r s \<Longrightarrow> \<not> mid_cycle (pc s) \<Longrightarrow> bodies s i = Some b \<Longrightarrow> 0 < closes b"
  unfolding bodies_inv_def by fastforce

lemma bodies_inv_run_deferred:
  assumes "bodies_inv E r s" and "\<not> mid_cycle (pc s)" and "finished (pc s)"
  shows "bodies_inv E r (run_deferred d s)"
proof (cases d)
  case CloseMessages
  show ?thesis
    by (rule bodies_inv_frame [OF assms(1)]) (use assms(2) CloseMessages in simp_all)
next
  case GroupDone
  show ?thesis
    by (rule bodies_inv_frame [OF assms(1)]) (use assms(2) GroupDone in simp_all)
next
  case (BodyClose i)
  then show ?thesis using assms(1) by (simp add: bodies_inv_close_body)
qed

lemma bodies_inv_unwind:
  assumes "bodies_inv E r s" and "pc s = Unwind p"
  shows "bodies_inv E r (go_step E s)"
proof (cases "defers s")
  case Nil
  show ?thesis
    by (rule bodies_inv_frame [OF assms(1)])
       (use assms(2) Nil in \<open>simp_all add: go_step_def split: option.splits\<close>)
next
  case (Cons d ds)
  have g: "go_step E s = run_deferred d (s\<lparr>defers := ds\<rparr>)"
    using assms(2) Cons by (simp add: go_step_def)
  have "bodies_inv E r (s\<lparr>defers := ds\<rparr>)"
    by (rule bodies_inv_frame [OF assms(1)]) simp_all
  then show ?thesis
    unfolding g by (rule bodies_inv_run_deferred) (simp_all add: assms(2))
qed

lemma bodies_inv_do_request:
  assumes "bodies_inv E r s" and "pc s = DoRequest"
  shows "bodies_inv E r (go_step E s)"
proof (cases "client_Do E r (requests s)")
  case (DoErr err)
  have g: "go_step E s = s\<lparr>requests := Suc (requests s), pc := Unwind (Some (PanicErr err))\<rparr>"
    using assms DoErr by (simp add: go_step_def bodies_inv_def)
  show ?thesis unfolding g using assms DoErr
    by (auto simp: bodies_inv_def less_Suc_eq)
next
  case (DoResp st ls)
  have g: "go_step E s = s\<lparr>requests := Suc (requests s),
                 bodies := (bodies s)(requests s \<mapsto> \<lparr>lines = ls, closes = 0\<rparr>),
                 resp_status := st, resp_body := requests s,
                 defers := BodyClose (requests s) # defers s,
                 pc := SetBody\<rparr>"
    using assms DoResp by (simp add: go_step_def bodies_inv_def)
  have closed: "0 < closes b" if "bodies s i = Some b" for i b
    using bodies_inv_all_closed [OF assms(1) _ that] assms(2) by simp
  show ?thesis unfolding g bodies_inv_def
  proof (intro conjI allI impI)
    fix n st' ls'
    assume "n < requests (s\<lparr>requests := Suc (requests s),
                 bodies := (bodies s)(requests s \<mapsto> \<lparr>lines = ls, closes = 0\<rparr>),
                 resp_status := st, resp_body := requests s,
                 defers := BodyClose (requests s) # defers s,
                 pc := SetBody\<rparr>)" "client_Do E r n = DoResp st' ls'"
    then show "bodies (s\<lparr>requests := Suc (requests s),
                 bodies := (bodies s)(requests s \<mapsto> \<lparr>lines = ls, closes = 0\<rparr>),
                 resp_status := st, resp_body := requests s,
                 defers := BodyClose (requests s) # defers s,
                 pc := SetBody\<rparr>) n \<noteq> None"
      using assms(1) by (auto simp: bodies_inv_def less_Suc_eq)
  next
    fix i b
    assume b: "bodies (s\<lparr>requests := Suc (requests s),
                 bodies := (bodies s)(requests s \<mapsto> \<lparr>lines = ls, closes = 0\<rparr>),
                 resp_status := st, resp_body := requests s,
                 defers := BodyClose (requests s) # defers s,
                 pc := SetBody\<rparr>) i = Some b" "closes b = 0"
    then have "i = requests s"
      using closed [of i b] by (auto split: if_splits)
    then show "i = resp_body (s\<lparr>requests := Suc (requests s),
                 bodies := (bodies s)(requests s \<mapsto> \<lparr>lines = ls, closes = 0\<rparr>),
                 resp_status := st, resp_body := requests s,
                 defers := BodyClose (requests s) # defers s,
                 pc := SetBody\<rparr>)" by simp
  qed (use assms(1) in \<open>simp_all add: bodies_inv_def\<close>)
qed

lemma bodies_inv_read_next:
  assumes "bodies_inv E r s" and "pc s = ReadNext"
  shows "bodies_inv E r (go_step E s)"
proof (cases "bodies s (resp_body s)")
  case None
  have g: "go_step E s = s\<lparr>pc := ResetBackOffs\<rparr>"
    using assms(2) None by (simp add: go_step_def)
  show ?thesis unfolding g by (rule bodies_inv_frame [OF assms(1)]) simp_all
next
  case (Some b)
  note Sb = Some
  show ?thesis
  proof (cases "readNext b")
    case None
    have g: "go_step E s = s\<lparr>pc := ResetBackOffs\<rparr>"
      using assms(2) Sb None by (simp add: go_step_def)
    show ?thesis unfolding g by (rule bodies_inv_frame [OF assms(1)]) simp_all
  next
    case (Some x)
    note Some2 = Some
    obtain data b' where x: "x = (data, b')" by (cases x)
    from Some2 x have b': "closes b' = closes b" "closes b = 0"
      by (auto simp: readNext_def split: if_splits list.splits)
    define p :: "'a pc" where "p = (if length data = 0 then RecvHead else Select data)"
    have g: "go_step E s = s\<lparr>bodies := (bodies s)(resp_body s \<mapsto> b'), pc := p\<rparr>"
      using assms(2) Sb Some2 x by (simp add: go_step_def p_def)
    have m: "mid_cycle p" by (simp add: p_def)
    show ?thesis unfolding g bodies_inv_def
    proof (intro conjI allI impI)
      fix n st ls
      assume "n < requests (s\<lparr>bodies := (bodies s)(resp_body s \<mapsto> b'), pc := p\<rparr>)"
        "client_Do E r n = DoResp st ls"
      then have "bodies s n \<noteq> None"
        using assms(1) by (simp add: bodies_inv_def)
      then show "bodies (s\<lparr>bodies := (bodies s)(resp_body s \<mapsto> b'), pc := p\<rparr>) n \<noteq> None"
        by simp
    next
      fix i c
      assume c: "bodies (s\<lparr>bodies := (bodies s)(resp_body s \<mapsto> b'), pc := p\<rparr>) i = Some c"
        "closes c = 0"
      have "i = resp_body s"
      proof (rule ccontr)
        assume "i \<noteq> resp_body s"
        with c have "bodies s i = Some c" by simp
        with assms(1) c(2) \<open>i \<noteq> resp_body s\<close> show False
          unfolding bodies_inv_def by blast
      qed
      then show "i = resp_body (s\<lparr>bodies := (bodies s)(resp_body s \<mapsto> b'), pc := p\<rparr>)"
        by simp
    qed (use assms(1) m in \<open>simp_all add: bodies_inv_def\<close>)
  qed
qed

lemma bodies_inv_go: "bodies_inv E r s \<Longrightarrow> bodies_inv E r (go_step E s)"
proof (cases "pc s")
  case (Unwind p)
  assume "bodies_inv E r s"
  then show ?thesis using Unwind by (rule bodies_inv_unwind)
next
  case DoRequest
  assume "bodies_inv E r s"
  then show ?thesis using DoRequest by (rule bodies_inv_do_request)
next
  case ReadNext
  assume "bodies_inv E r s"
  then show ?thesis using ReadNext by (rule bodies_inv_read_next)
next
  case CloseOther
  assume "bodies_inv E r s"
  then show ?thesis using CloseOther by (simp add: go_step_def bodies_inv_close_resp)
next
  case CloseResp
  assume "bodies_inv E r s"
  then show ?thesis using CloseResp by (simp add: go_step_def bodies_inv_close_resp)
next
  case RetryEntry
  assume a: "bodies_inv E r s"
  show ?thesis by (rule bodies_inv_frame [OF a]) (use RetryEntry in \<open>simp_all add: go_step_def\<close>)
next
  case RetryHead
  assume a: "bodies_inv E r s"
  show ?thesis by (rule bodies_inv_frame [OF a]) (use RetryHead in \<open>simp_all add: go_step_def\<close>)
next
  case SetBody
  assume a: "bodies_inv E r s"
  show ?thesis by (rule bodies_inv_frame [OF a]) (use SetBody in \<open>simp_all add: go_step_def\<close>)
next
  case Switch
  assume a: "bodies_inv E r s"
  show ?thesis
    by (rule bodies_inv_frame [OF a]) (use Switch in \<open>simp_all add: go_step_def case_prod_beta\<close>)
next
  case RecvHead
  assume a: "bodies_inv E r s"
  show ?thesis by (rule bodies_inv_frame [OF a]) (use RecvHead in \<open>simp_all add: go_step_def\<close>)
next
  case (Select d)
  assume a: "bodies_inv E r s"
  show ?thesis by (rule bodies_inv_frame [OF a]) (use Select in \<open>simp_all add: go_step_def\<close>)
next
  case (Send m)
  assume a: "bodies_inv E r s"
  show ?thesis by (rule bodies_inv_frame [OF a]) (use Send in \<open>simp_all add: go_step_def\<close>)
next
  case ResetBackOffs
  assume a: "bodies_inv E r s"
  show ?thesis by (rule bodies_inv_frame [OF a]) (use ResetBackOffs in \<open>simp_all add: go_step_def\<close>)
next
  case CheckWait
  assume a: "bodies_inv E r s"
  show ?thesis by (rule bodies_inv_frame [OF a]) (use CheckWait in \<open>simp_all add: go_step_def\<close>)
next
  case Sleep
  assume a: "bodies_inv E r s"
  show ?thesis by (rule bodies_inv_frame [OF a]) (use Sleep in \<open>simp_all add: go_step_def\<close>)
next
  case Exited
  assume a: "bodies_inv E r s"
  show ?thesis by (rule bodies_inv_frame [OF a]) (use Exited in \<open>simp_all add: go_step_def\<close>)
qed

lemma bodies_inv_stop: "bodies_inv E r s \<Longrightarrow> bodies_inv E r (stop_step s)"
proof (cases "caller s")
  case NotInStop
  assume a: "bodies_inv E r s"
  show ?thesis by (rule bodies_inv_frame [OF a]) (use NotInStop in \<open>simp_all add: stop_step_def\<close>)
next
  case StopWait
  assume a: "bodies_inv E r s"
  show ?thesis by (rule bodies_inv_frame [OF a]) (use StopWait in \<open>simp_all add: stop_step_def\<close>)
next
  case StopBody
  assume a: "bodies_inv E r s"
  show ?thesis
  proof (cases "body s")
    case None
    show ?thesis
      by (rule bodies_inv_frame [OF a]) (use StopBody None in \<open>simp_all add: stop_step_def\<close>)
  next
    case (Some i)
    have g: "stop_step s = (close_body i s)\<lparr>caller := StopWait\<rparr>"
      using StopBody Some by (simp add: stop_step_def)
    show ?thesis unfolding g
      by (rule bodies_inv_frame [OF bodies_inv_close_body [OF a, of i]]) simp_all
  qed
qed

lemma bodies_inv_consume: "bodies_inv E r s \<Longrightarrow> bodies_inv E r (consume_step s)"
proof -
  assume a: "bodies_inv E r s"
  show ?thesis
    by (rule bodies_inv_frame [OF a]; cases "pc s") (simp_all add: consume_step_def)
qed

lemma bodies_inv_step: "bodies_inv E r s \<Longrightarrow> bodies_inv E r (step E ev s)"
  by (cases ev) (simp_all add: step_def bodies_inv_go bodies_inv_stop bodies_inv_consume)

lemma bodies_inv_run: "bodies_inv E r s \<Longrightarrow> bodies_inv E r (run E evs s)"
  by (induction evs arbitrary: s) (simp_all add: bodies_inv_step)

lemma bodies_inv_newStream: "bodies_inv E r (newStream E r)"
  by (simp add: bodies_inv_def newStream_def)

text \<open>
  Claim C9. In every state a session reaches, under every schedule and whatever the
  client answers, the body of every response obtained so far has been closed, except
  the body of the cycle in progress while the goroutine is between obtaining it and
  the statement that closes it. So at the end of every cycle (before the wait is
  checked, during the sleep, at the next request) and once \<open>retry\<close> returns or panics,
  no body is open.
\<close>

theorem no_response_body_leaked:
  assumes "n < requests (run E sch (newStream E r))"
    and "client_Do E r n = DoResp st ls"
  shows "\<exists>b. bodies (run E sch (newStream E r)) n = Some b
           \<and> (\<not> mid_cycle (pc (run E sch (newStream E r)))
                 \<or> n \<noteq> resp_body (run E sch (newStream E r)) \<longrightarrow> 0 < closes b)"
proof -
  have inv: "bodies_inv E r (run E sch (newStream E r))"
    by (rule bodies_inv_run) (rule bodies_inv_newStream)
  with assms obtain b where b: "bodies (run E sch (newStream E r)) n = Some b"
    unfolding bodies_inv_def by blast
  from inv b have "closes b = 0 \<longrightarrow> mid_cycle (pc (run E sch (newStream E r)))
      \<and> n = resp_body (run E sch (newStream E r))"
    unfolding bodies_inv_def by blast
  with b show ?thesis by auto
qed

theorem no_response_body_leaked_witness:
  "(0::nat) < requests (run (demoEnv [DoResp 503 [], DoResp 200 []])
         [Go, Go, Go, Go, Go, Go, Go, Go, Go, Go, Go]
         (newStream (demoEnv [DoResp 503 [], DoResp 200 []]) demoReq))
   \<and> resp_body (run (demoEnv [DoResp 503 [], DoResp 200 []])
         [Go, Go, Go, Go, Go, Go, Go, Go, Go, Go, Go]
         (newStream (demoEnv [DoResp 503 [], DoResp 200 []]) demoReq)) = 1
   \<and> (\<exists>b. bodies (run (demoEnv [DoResp 503 [], DoResp 200 []])
         [Go, Go, Go, Go, Go, Go, Go, Go, Go, Go, Go]
         (newStream (demoEnv [DoResp 503 [], DoResp 200 []]) demoReq)) 0 = Some b \<and> 0 < closes b)"
proof -
  let ?E = "demoEnv [DoResp 503 [], DoResp 200 []]"
  let ?s = "run ?E [Go, Go, Go, Go, Go, Go, Go, Go, Go, Go, Go] (newStream ?E demoReq)"
  have a: "0 < requests ?s" and b: "client_Do ?E demoReq 0 = DoResp 503 []"
    and c: "resp_body ?s = 1"
    by code_simp+
  from no_response_body_leaked [OF a b] a c show ?thesis
    by (simp del: run.simps)
qed

section \<open>Messages in the order of their lines\<close>

lemma emits_simps:
  "emits E [] = []"
  "emits E ([] # ls) = emits E ls"
  "l \<noteq> [] \<Longrightarrow> emits E (l # ls) = decode_line E l # emits E ls"
  by (simp_all add: emits_def)

lemma recv_inv_outside:
  "n < requests s \<Longrightarrow> recv_inv E n rb msgs s"
  by (simp add: recv_inv_def)

lemma recv_inv_in:
  assumes "requests s = n" and "\<not> done_ch s" and "resp_body s = rb" and "in_receive (pc s)"
    and "bodies s rb = Some b" and "closes b = 0"
    and "sent_msgs (Messages s) @ pending E (pc s) @ emits E (lines b) = msgs"
  shows "recv_inv E n rb msgs s"
  using assms by (simp add: recv_inv_def)

lemma recv_inv_out:
  assumes "requests s = n" and "\<not> done_ch s" and "resp_body s = rb" and "\<not> in_receive (pc s)"
    and "sent_msgs (Messages s) = msgs"
    and "pc s = ResetBackOffs \<or> after_reset (pc s) \<or> finished (pc s)"
  shows "recv_inv E n rb msgs s"
  using assms by (simp add: recv_inv_def)

lemma run_deferred_resp_body: "resp_body (run_deferred d s) = resp_body s"
  by (cases d) (simp_all add: close_body_def)

lemma finished_resp_body:
  "finished (pc s) \<Longrightarrow> resp_body (go_step E s) = resp_body s"
  by (cases "pc s")
     (simp_all add: go_step_def run_deferred_resp_body split: list.splits option.splits)

lemma recv_inv_go:
  assumes inv: "recv_inv E n rb msgs s" and c: "crashed s = None"
  shows "recv_inv E n rb msgs (go_step E s)"
proof (cases "requests s = n")
  case False
  with inv have "n < requests s" by (simp add: recv_inv_def)
  moreover have "requests s \<le> requests (go_step E s)"
    by (cases "pc s")
       (simp_all add: go_step_def close_body_def case_prod_beta run_deferred_frame
          split: do_result.splits option.splits list.splits)
  ultimately show ?thesis by (simp add: recv_inv_outside)
next
  case True
  with inv have d: "\<not> done_ch s" and rb: "resp_body s = rb" by (simp_all add: recv_inv_def)
  show ?thesis
  proof (cases "in_receive (pc s)")
    case inr: True
    with inv True obtain b where b: "bodies s rb = Some b" "closes b = 0"
      "sent_msgs (Messages s) @ pending E (pc s) @ emits E (lines b) = msgs"
      by (auto simp: recv_inv_def)
    show ?thesis
    proof (cases "pc s")
      case RecvHead
      have g: "go_step E s = s\<lparr>pc := ReadNext\<rparr>"
        using RecvHead d by (simp add: go_step_def stopped_def)
      show ?thesis unfolding g
        by (rule recv_inv_in [where b = b]) (use True d rb b RecvHead in simp_all)
    next
      case (Select data)
      have g: "go_step E s = s\<lparr>pc := Send (decode_line E data)\<rparr>"
        using Select d by (simp add: go_step_def decode_line_def)
      show ?thesis unfolding g
        by (rule recv_inv_in [where b = b]) (use True d rb b Select in simp_all)
    next
      case (Send m)
      have g: "go_step E s = s"
        using Send by (simp add: go_step_def)
      show ?thesis unfolding g by (rule inv)
    next
      case ReadNext
      show ?thesis
      proof (cases "lines b")
        case Nil
        have g: "go_step E s = s\<lparr>pc := ResetBackOffs\<rparr>"
          using ReadNext rb b Nil by (simp add: go_step_def readNext_def)
        show ?thesis unfolding g
          by (rule recv_inv_out) (use True d rb b ReadNext Nil in \<open>simp_all add: emits_simps\<close>)
      next
        case (Cons l ls)
        show ?thesis
        proof (cases "l = []")
          case e: True
          have g: "go_step E s = s\<lparr>bodies := (bodies s)(rb \<mapsto> b\<lparr>lines := ls\<rparr>), pc := RecvHead\<rparr>"
            using ReadNext rb b Cons e by (simp add: go_step_def readNext_def)
          show ?thesis unfolding g
            by (rule recv_inv_in [where b = "b\<lparr>lines := ls\<rparr>"])
               (use True d rb b ReadNext Cons e in \<open>simp_all add: emits_simps\<close>)
        next
          case ne: False
          have g: "go_step E s = s\<lparr>bodies := (bodies s)(rb \<mapsto> b\<lparr>lines := ls\<rparr>), pc := Select l\<rparr>"
            using ReadNext rb b Cons ne by (simp add: go_step_def readNext_def)
          show ?thesis unfolding g
            by (rule recv_inv_in [where b = "b\<lparr>lines := ls\<rparr>"])
               (use True d rb b ReadNext Cons ne in \<open>simp_all add: emits_simps\<close>)
        qed
      qed
    qed (use inr in simp_all)
  next
    case out: False
    with inv True have t: "sent_msgs (Messages s) = msgs"
      and p: "pc s = ResetBackOffs \<or> after_reset (pc s) \<or> finished (pc s)"
      by (simp_all add: recv_inv_def)
    show ?thesis
    proof (cases "finished (pc s)")
      case f: True
      from finished_step [OF f, of E Go] c
      have f': "finished (pc (go_step E s))" "requests (go_step E s) = requests s"
        "sent_msgs (Messages (go_step E s)) = sent_msgs (Messages s)"
        by (simp_all add: step_def)
      from f'(1) have "\<not> in_receive (pc (go_step E s))"
        by (cases "pc (go_step E s)") simp_all
      then show ?thesis
        by (intro recv_inv_out) (use f f' True d rb t in \<open>simp_all add: go_step_frame finished_resp_body\<close>)
    next
      case nf: False
      with p consider "pc s = ResetBackOffs" | "pc s = CloseResp" | "pc s = CheckWait"
        | "pc s = Sleep" | "pc s = RetryHead" | "pc s = DoRequest"
        by (cases "pc s") auto
      then show ?thesis
      proof cases
        case 1
        show ?thesis
          by (rule recv_inv_out) (use 1 True d rb t in \<open>simp_all add: go_step_def\<close>)
      next
        case 2
        show ?thesis
          by (rule recv_inv_out) (use 2 True d rb t in \<open>simp_all add: go_step_def close_body_def\<close>)
      next
        case 3
        show ?thesis
          by (rule recv_inv_out) (use 3 True d rb t in \<open>simp_all add: go_step_def\<close>)
      next
        case 4
        show ?thesis
          by (rule recv_inv_out) (use 4 True d rb t in \<open>simp_all add: go_step_def\<close>)
      next
        case 5
        show ?thesis
          by (rule recv_inv_out) (use 5 True d rb t in \<open>simp_all add: go_step_def stopped_def\<close>)
      next
        case 6
        have "n < requests (go_step E s)"
          using 6 True by (simp add: go_step_def split: do_result.splits)
        then show ?thesis by (rule recv_inv_outside)
      qed
    qed
  qed
qed

lemma recv_inv_consume:
  assumes inv: "recv_inv E n rb msgs s"
  shows "recv_inv E n rb msgs (consume_step s)"
proof (cases "pc s")
  case (Send m)
  have g: "consume_step s = s\<lparr>Messages := Messages s @ [Sent m], pc := RecvHead\<rparr>"
    using Send by (simp add: consume_step_def)
  show ?thesis
  proof (cases "requests s = n")
    case False
    with inv have "n < requests s" by (simp add: recv_inv_def)
    then show ?thesis unfolding g by (simp add: recv_inv_outside)
  next
    case True
    with inv Send obtain b where b: "\<not> done_ch s" "resp_body s = rb" "bodies s rb = Some b"
      "closes b = 0" "sent_msgs (Messages s) @ [m] @ emits E (lines b) = msgs"
      by (auto simp: recv_inv_def)
    show ?thesis unfolding g
      by (rule recv_inv_in [where b = b]) (use True b in \<open>simp_all add: sent_msgs_append\<close>)
  qed
qed (use inv in \<open>simp_all add: consume_step_def\<close>)

lemma recv_inv_step:
  "recv_inv E n rb msgs s \<Longrightarrow> ev \<noteq> Stop \<Longrightarrow> recv_inv E n rb msgs (step E ev s)"
  by (cases ev) (simp_all add: step_def recv_inv_go recv_inv_consume)

lemma recv_inv_run:
  "recv_inv E n rb msgs s \<Longrightarrow> Stop \<notin> set evs \<Longrightarrow> recv_inv E n rb msgs (run E evs s)"
  by (induction evs arbitrary: s) (auto simp: recv_inv_step)

lemma sent_msgs_step:
  "\<exists>ys. sent_msgs (Messages (step E ev s)) = sent_msgs (Messages s) @ ys"
proof (cases ev)
  case Go
  have "sent_msgs (Messages (go_step E s)) = sent_msgs (Messages s)"
    by (cases "pc s")
       (simp_all add: go_step_def close_body_def case_prod_beta run_deferred_sent
          split: do_result.splits option.splits list.splits)
  then show ?thesis using Go by (simp add: step_def)
next
  case Stop
  have "Messages (stop_step s) = Messages s"
    by (simp add: stop_step_def close_body_def split: caller_pc.splits option.splits)
  then show ?thesis using Stop by (simp add: step_def)
next
  case Consume
  then show ?thesis
    by (cases "pc s") (simp_all add: step_def consume_step_def sent_msgs_append)
qed

lemma sent_msgs_run:
  "\<exists>ys. sent_msgs (Messages (run E evs s)) = sent_msgs (Messages s) @ ys"
proof (induction evs arbitrary: s)
  case Nil
  then show ?case by simp
next
  case (Cons ev evs)
  from sent_msgs_step [of E ev s] obtain ys where
    1: "sent_msgs (Messages (step E ev s)) = sent_msgs (Messages s) @ ys" by blast
  from Cons [of "step E ev s"] obtain zs where
    2: "sent_msgs (Messages (run E evs (step E ev s))) = sent_msgs (Messages (step E ev s)) @ zs"
    by blast
  from 1 2 show ?case by simp
qed

lemma drain_no_Stop: "Stop \<notin> set (drain ls)"
  by (induction ls) simp_all

lemma drain_exits:
  "pc s = RecvHead \<Longrightarrow> crashed s = None \<Longrightarrow> \<not> done_ch s \<Longrightarrow>
     bodies s (resp_body s) = Some b \<Longrightarrow> closes b = 0 \<Longrightarrow> lines b = ls \<Longrightarrow>
     pc (run E (drain ls) s) = ResetBackOffs \<and> requests (run E (drain ls) s) = requests s"
proof (induction ls arbitrary: s b)
  case Nil
  then show ?case
    by (simp add: step_def go_step_def stopped_def readNext_def)
next
  case (Cons l ls)
  let ?pre = "if l = [] then [Go, Go] else [Go, Go, Go, Consume]"
  let ?s' = "run E ?pre s"
  have s': "?s' = s\<lparr>bodies := (bodies s)(resp_body s \<mapsto> b\<lparr>lines := ls\<rparr>),
                    Messages := (if l = [] then Messages s
                                 else Messages s @ [Sent (fst (getMessage (json_Unmarshal E) l))])\<rparr>"
    using Cons.prems
    by (simp add: step_def go_step_def consume_step_def stopped_def readNext_def)
  have "pc (run E (drain ls) ?s') = ResetBackOffs \<and> requests (run E (drain ls) ?s') = requests ?s'"
    by (rule Cons.IH [where b = "b\<lparr>lines := ls\<rparr>"]) (use Cons.prems in \<open>simp_all add: s'\<close>)
  moreover have "requests ?s' = requests s" by (simp add: s')
  ultimately show ?case by (simp add: run_append del: run.simps)
qed

text \<open>
  Claim C5. Let \<open>receive\<close> start on a body with unread lines \<open>lines b\<close>, and let no
  step of the schedule belong to \<open>Stop\<close> (cancellation is never set). While the cycle
  lasts, the messages sent are, after those sent before, a prefix of \<open>emits\<close>: one
  message for each non-empty line, none for an empty line, in the order of the lines.
  Once the loop has been left, they are exactly \<open>emits\<close>; and the loop is left, with
  all of them sent, when the consumer receives each message offered (\<open>drain\<close>). The
  message of a well-formed line is its decoded value.
\<close>

theorem receive_emits_in_order:
  assumes "pc s = RecvHead" and "\<not> done_ch s" and "bodies s (resp_body s) = Some b"
    and "closes b = 0" and "Stop \<notin> set sch"
  shows "(requests (run E sch s) = requests s \<longrightarrow>
           (\<exists>k. sent_msgs (Messages (run E sch s))
                  = sent_msgs (Messages s) @ take k (emits E (lines b))))
       \<and> (requests (run E sch s) = requests s \<and> \<not> in_receive (pc (run E sch s)) \<longrightarrow>
            sent_msgs (Messages (run E sch s)) = sent_msgs (Messages s) @ emits E (lines b))
       \<and> (crashed s = None \<longrightarrow>
            pc (run E (drain (lines b)) s) = ResetBackOffs
          \<and> sent_msgs (Messages (run E (drain (lines b)) s))
              = sent_msgs (Messages s) @ emits E (lines b))
       \<and> emits E (lines b)
           = map (\<lambda>l. case json_Unmarshal E l of Inl e \<Rightarrow> None | Inr d \<Rightarrow> Some d)
               (filter (\<lambda>l. l \<noteq> []) (lines b))"
proof -
  let ?all = "sent_msgs (Messages s) @ emits E (lines b)"
  have init: "recv_inv E (requests s) (resp_body s) ?all s"
    by (rule recv_inv_in [where b = b]) (use assms in simp_all)
  have inv: "recv_inv E (requests s) (resp_body s) ?all (run E sch' s)"
    if "Stop \<notin> set sch'" for sch'
    using init that by (rule recv_inv_run)
  have two: "sent_msgs (Messages (run E sch' s)) = ?all"
    if "Stop \<notin> set sch'" "requests (run E sch' s) = requests s"
      "\<not> in_receive (pc (run E sch' s))" for sch'
    using inv [OF that(1)] that(2,3) by (simp add: recv_inv_def)
  have one: "\<exists>k. sent_msgs (Messages (run E sch s)) = sent_msgs (Messages s) @ take k (emits E (lines b))"
    if r: "requests (run E sch s) = requests s"
  proof (cases "in_receive (pc (run E sch s))")
    case False
    with two [OF assms(5) r] have
      "sent_msgs (Messages (run E sch s))
         = sent_msgs (Messages s) @ take (length (emits E (lines b))) (emits E (lines b))"
      by simp
    then show ?thesis by blast
  next
    case True
    with inv [OF assms(5)] r obtain b' :: Body where
      e: "sent_msgs (Messages (run E sch s)) @ pending E (pc (run E sch s)) @ emits E (lines b') = ?all"
      by (auto simp: recv_inv_def)
    from sent_msgs_run [of E sch s] obtain ys where
      ys: "sent_msgs (Messages (run E sch s)) = sent_msgs (Messages s) @ ys" by blast
    from e ys have "ys @ (pending E (pc (run E sch s)) @ emits E (lines b')) = emits E (lines b)"
      by simp
    then have "ys = take (length ys) (emits E (lines b))"
      by (simp add: append_eq_conv_conj)
    with ys show ?thesis by metis
  qed
  have three: "pc (run E (drain (lines b)) s) = ResetBackOffs
      \<and> sent_msgs (Messages (run E (drain (lines b)) s)) = ?all" if c: "crashed s = None"
  proof -
    from drain_exits [OF assms(1) c assms(2,3,4) refl, of E]
    have d: "pc (run E (drain (lines b)) s) = ResetBackOffs"
      "requests (run E (drain (lines b)) s) = requests s" by simp_all
    from two [OF drain_no_Stop d(2)] d(1) show ?thesis by simp
  qed
  have four: "emits E (lines b)
           = map (\<lambda>l. case json_Unmarshal E l of Inl e \<Rightarrow> None | Inr d \<Rightarrow> Some d)
               (filter (\<lambda>l. l \<noteq> []) (lines b))"
    by (simp add: emits_def decode_line_def getMessage_def split: sum.splits cong: map_cong)
  from one two [OF assms(5)] three four show ?thesis by blast
qed

theorem receive_emits_in_order_witness:
  "pc (run (demoEnv [DoResp 200 [[], ''{1}'', [], ''{2}'']]) [Go, Go, Go, Go, Go]
        (newStream (demoEnv [DoResp 200 [[], ''{1}'', [], ''{2}'']]) demoReq)) = RecvHead
   \<and> sent_msgs (Messages (run (demoEnv [DoResp 200 [[], ''{1}'', [], ''{2}'']])
        (drain [[], ''{1}'', [], ''{2}''])
        (run (demoEnv [DoResp 200 [[], ''{1}'', [], ''{2}'']]) [Go, Go, Go, Go, Go]
          (newStream (demoEnv [DoResp 200 [[], ''{1}'', [], ''{2}'']]) demoReq))))
     = [Some \<lparr>Tweet = Some ''{1}'', MatchingRules = []\<rparr>,
        Some \<lparr>Tweet = Some ''{2}'', MatchingRules = []\<rparr>]"
proof -
  let ?ls = "[[], ''{1}'', [], ''{2}'']"
  let ?E = "demoEnv [DoResp 200 ?ls]"
  let ?s = "run ?E [Go, Go, Go, Go, Go] (newStream ?E demoReq)"
  let ?b = "\<lparr>lines = ?ls, closes = 0\<rparr>"
  have a: "pc ?s = RecvHead" and b: "\<not> done_ch ?s" and c: "bodies ?s (resp_body ?s) = Some ?b"
    and e: "crashed ?s = None" and f: "Messages ?s = []"
    by code_simp+
  have d: "closes ?b = 0" by simp
  have n: "Stop \<notin> set ([] :: event list)" by simp
  have g: "emits ?E ?ls = [Some \<lparr>Tweet = Some ''{1}'', MatchingRules = []\<rparr>,
        Some \<lparr>Tweet = Some ''{2}'', MatchingRules = []\<rparr>]"
    by code_simp
  from receive_emits_in_order [OF a b c d n, of ?E] e f g a show ?thesis
    by (simp del: run.simps drain.simps)
qed

end
